theory Spec2Isabelle
  imports Complex_Main "HOL-Library.Stream"
begin

section \<open>Python values and errors\<close>

text \<open>
  Python integers are modelled as \<open>int\<close>, Python floats as \<open>real\<close> (the exact
  value of the expression, without rounding).  The flattened history of a run is
  the pair of lists \<open>white_balls\<close> and \<open>powerballs\<close> which \<open>load_data\<close> stores in
  the object; reading the CSV file is outside the model.  Every exception the
  modelled code can raise is a value of \<open>error\<close>.
\<close>

datatype error = ZeroDivisionError | ValueError | IndexError

text \<open>\<open>a / b\<close> on two Python integers: true division, raising on a zero divisor.\<close>

definition py_truediv :: "int \<Rightarrow> int \<Rightarrow> error + real" where
  "py_truediv a b = (if b = 0 then Inl ZeroDivisionError else Inr (real_of_int a / real_of_int b))"

text \<open>\<open>Counter(xs).get(x, 0)\<close>: the exact number of occurrences.\<close>

definition counter_get :: "int list \<Rightarrow> int \<Rightarrow> int" where
  "counter_get xs x = int (count_list xs x)"

section \<open>heat\_index\_rankings.py\<close>

datatype heat_category = BLAZING_HOT | HOT | WARM | NEUTRAL | COOL | COLD | FREEZING

text \<open>\<open>get_heat_category\<close>: the \<open>if\<close>/\<open>elif\<close> cascade, first matching branch wins.\<close>

definition get_heat_category :: "real \<Rightarrow> heat_category" where
  "get_heat_category z_score =
     (if z_score \<ge> 2 then BLAZING_HOT
      else if z_score \<ge> 1 then HOT
      else if z_score \<ge> 0.5 then WARM
      else if z_score \<ge> -0.5 then NEUTRAL
      else if z_score \<ge> -1 then COOL
      else if z_score \<ge> -2 then COLD
      else FREEZING)"

text \<open>The expression \<open>max(0, min(100, 50 + (z_score * 16.67)))\<close> of both loops.\<close>

definition heat_index_of :: "real \<Rightarrow> real" where
  "heat_index_of z_score = max 0 (min 100 (50 + (z_score * 16.67)))"

text \<open>
  The quotient \<open>(observed_count - expected) / np.sqrt(expected)\<close>.  With an empty
  dataset \<open>expected\<close> is \<open>0.0\<close> and numpy yields \<open>nan\<close> without raising, where HOL
  yields \<open>0\<close>; every use below is either discarded by an exception raised right
  after it or is a comparison \<open>> 2\<close>, \<open>< -2\<close> that is false for both values.
\<close>

definition z_score_of :: "int \<Rightarrow> real \<Rightarrow> real" where
  "z_score_of observed_count expected = (real_of_int observed_count - expected) / sqrt expected"

record heat_row =
  number :: int
  frequency :: int
  expected :: real
  deviation :: real
  percentage :: real
  z_score :: real
  heat_index :: real
  category :: heat_category

text \<open>
  One iteration of the loop over a domain: \<open>balls\<close> is the flattened history of
  that domain and \<open>domain_size\<close> is 69 or 26.  The statements are in the order of
  the source; the percentage is the one that raises on an empty history.
\<close>

definition heat_entry :: "int list \<Rightarrow> int \<Rightarrow> int \<Rightarrow> error + heat_row" where
  "heat_entry balls domain_size num =
     (let expected_freq = real (length balls) / real_of_int domain_size;
          observed_count = counter_get balls num;
          z = z_score_of observed_count expected_freq
      in case py_truediv observed_count (int (length balls)) of
           Inl e \<Rightarrow> Inl e
         | Inr share \<Rightarrow>
             Inr \<lparr> number = num,
                   frequency = observed_count,
                   expected = expected_freq,
                   deviation = real_of_int observed_count - expected_freq,
                   percentage = share * 100,
                   z_score = z,
                   heat_index = heat_index_of z,
                   category = get_heat_category z \<rparr>)"

text \<open>The \<open>for num in range(...)\<close> loop: stops at the first exception.\<close>

fun heat_loop :: "int list \<Rightarrow> int \<Rightarrow> int list \<Rightarrow> error + heat_row list" where
  "heat_loop balls domain_size [] = Inr []"
| "heat_loop balls domain_size (num # nums) =
     (case heat_entry balls domain_size num of
        Inl e \<Rightarrow> Inl e
      | Inr row \<Rightarrow>
          (case heat_loop balls domain_size nums of
             Inl e \<Rightarrow> Inl e
           | Inr rows \<Rightarrow> Inr (row # rows)))"

text \<open>
  \<open>list.sort(key=lambda x: x['heat_index'], reverse=True)\<close>: a stable sort in
  descending order of the key, which is the stable ascending sort on the negated key.
\<close>

definition sort_by_heat :: "heat_row list \<Rightarrow> heat_row list" where
  "sort_by_heat rows = sort_key (\<lambda>r. - heat_index r) rows"

text \<open>
  \<open>calculate_heat_index\<close>: the white-ball loop, then the powerball loop, then the
  two sorts.  The result is the pair \<open>(white_heat_data, pb_heat_data)\<close>.
\<close>

definition calculate_heat_index :: "int list \<Rightarrow> int list \<Rightarrow> error + (heat_row list \<times> heat_row list)" where
  "calculate_heat_index white_balls powerballs =
     (case heat_loop white_balls 69 [1..69] of
        Inl e \<Rightarrow> Inl e
      | Inr white_heat_data \<Rightarrow>
          (case heat_loop powerballs 26 [1..26] of
             Inl e \<Rightarrow> Inl e
           | Inr pb_heat_data \<Rightarrow> Inr (sort_by_heat white_heat_data, sort_by_heat pb_heat_data)))"



section \<open>advanced\_pattern\_analyzer.py: features of one draw\<close>

text \<open>\<open>_count_consecutive_pairs\<close>: the loop over \<open>i\<close> in \<open>range(len(sorted_nums) - 1)\<close>.\<close>

fun consecutive_loop :: "int list \<Rightarrow> int" where
  "consecutive_loop (a # b # rest) = (if b - a = 1 then 1 else 0) + consecutive_loop (b # rest)"
| "consecutive_loop _ = 0"

definition count_consecutive_pairs :: "int list \<Rightarrow> int" where
  "count_consecutive_pairs numbers = consecutive_loop (sort numbers)"

text \<open>The comprehension \<open>[sorted_nums[i+1] - sorted_nums[i] for i in range(len(sorted_nums) - 1)]\<close>.\<close>

fun gaps_of :: "int list \<Rightarrow> int list" where
  "gaps_of (a # b # rest) = (b - a) # gaps_of (b # rest)"
| "gaps_of _ = []"

text \<open>\<open>np.var\<close> with its default \<open>ddof=0\<close>: the mean squared deviation from the mean.\<close>

definition np_var :: "int list \<Rightarrow> real" where
  "np_var xs =
     (let n = real (length xs);
          m = real_of_int (sum_list xs) / n
      in sum_list (map (\<lambda>x. (real_of_int x - m)\<^sup>2) xs) / n)"

definition calculate_gap_variance :: "int list \<Rightarrow> real" where
  "calculate_gap_variance numbers =
     (let gaps = gaps_of (sort numbers)
      in if length gaps > 0 then np_var gaps else 0)"

text \<open>
  \<open>_calculate_low_high_ratio\<close>.  The division is Python's, which raises on a zero
  divisor; the guard \<open>high_count > 0\<close> is the source's.
\<close>

definition calculate_low_high_ratio :: "int list \<Rightarrow> error + real" where
  "calculate_low_high_ratio numbers =
     (let low_count = int (length (filter (\<lambda>num. num \<le> 34) numbers));
          high_count = 5 - low_count
      in if high_count > 0 then py_truediv low_count high_count else Inr 5.0)"

definition primes :: "int list" where
  "primes = [2, 3, 5, 7, 11, 13, 17, 19, 23, 29, 31, 37, 41, 43, 47, 53, 59, 61, 67]"

definition count_primes :: "int list \<Rightarrow> int" where
  "count_primes numbers = int (length (filter (\<lambda>num. num \<in> set primes) numbers))"

definition fibs :: "int list" where
  "fibs = [1, 2, 3, 5, 8, 13, 21, 34, 55]"

definition count_fibonacci :: "int list \<Rightarrow> int" where
  "count_fibonacci numbers = int (length (filter (\<lambda>num. num \<in> set fibs) numbers))"

text \<open>
  What one iteration of the loop stores in a row, as a predicate on the row: used to
  state facts about every entry of the two tables.
\<close>

definition row_of :: "int list \<Rightarrow> int \<Rightarrow> heat_row \<Rightarrow> bool" where
  "row_of balls d row \<longleftrightarrow>
     1 \<le> number row \<and> number row \<le> d
     \<and> frequency row = counter_get balls (number row)
     \<and> expected row = real (length balls) / real_of_int d
     \<and> z_score row = z_score_of (frequency row) (expected row)
     \<and> heat_index row = heat_index_of (z_score row)
     \<and> category row = get_heat_category (z_score row)"

section \<open>advanced\_pattern\_analyzer.py: the sweep over cluster counts\<close>

text \<open>
  \<open>KMeans(...).fit_predict\<close> followed by \<open>silhouette_score\<close> is library code with
  a fixed seed: for the prepared feature matrix it is a function of \<open>k\<close> alone, which
  either raises or returns the score.  It is the parameter \<open>cluster_score\<close>.

  The loop \<open>for k in range(2, 8)\<close> with its running pair \<open>(best_k, best_score)\<close>:
\<close>

fun sweep :: "(int \<Rightarrow> error + real) \<Rightarrow> int list \<Rightarrow> int \<times> real \<Rightarrow> error + (int \<times> real)" where
  "sweep cluster_score [] best = Inr best"
| "sweep cluster_score (k # ks) (best_k, best_score) =
     (case cluster_score k of
        Inl e \<Rightarrow> Inl e
      | Inr score \<Rightarrow>
          (if score > best_score
           then sweep cluster_score ks (k, score)
           else sweep cluster_score ks (best_k, best_score)))"

text \<open>
  \<open>clustering_analysis\<close> up to the line that reports the best clustering: the result is
  the pair \<open>(best_k, best_score)\<close>, started at \<open>best_k = 3\<close>, \<open>best_score = -1\<close>.
\<close>

definition clustering_analysis :: "(int \<Rightarrow> error + real) \<Rightarrow> error + (int \<times> real)" where
  "clustering_analysis cluster_score = sweep cluster_score [2..7] (3, -1)"

section \<open>The frequency-weighted pools\<close>

text \<open>
  \<open>generate_frequency_weighted_strategy\<close> (final\_lottery\_generator.py) and
  \<open>generate_frequency_weighted\<close> (ultimate\_lottery\_generator.py) build the same two
  pools: for each number of the domain, \<open>weight = max(1, count // divisor)\<close> copies of
  it, where \<open>//\<close> is floor division and \<open>[num] * weight\<close> is the list of \<open>weight\<close>
  copies.
\<close>

definition weighted_pool :: "int list \<Rightarrow> int list \<Rightarrow> int \<Rightarrow> int list" where
  "weighted_pool history domain divisor =
     concat (map (\<lambda>num. let count = counter_get history num;
                             weight = max 1 (count div divisor)
                         in replicate (nat weight) num) domain)"

definition selection_pool :: "int list \<Rightarrow> int list" where
  "selection_pool white_balls = weighted_pool white_balls [1..69] 10"

definition pb_pool :: "int list \<Rightarrow> int list" where
  "pb_pool powerballs = weighted_pool powerballs [1..26] 5"

section \<open>smart\_lottery\_generator.py and final\_lottery\_generator.py: pattern analysis\<close>

text \<open>An entry of \<open>hot_numbers\<close> or \<open>cold_numbers\<close>: \<open>(num, z_score, observed_count)\<close>.\<close>

type_synonym entry = "int \<times> real \<times> int"

text \<open>
  The loop \<open>for num in range(1, 70)\<close> of \<open>analyze_patterns\<close>, appending to one of the
  two lists.
\<close>

fun pattern_loop :: "int list \<Rightarrow> real \<Rightarrow> int list \<Rightarrow> entry list \<times> entry list \<Rightarrow> entry list \<times> entry list" where
  "pattern_loop white_balls expected_white [] (hot, cold) = (hot, cold)"
| "pattern_loop white_balls expected_white (num # nums) (hot, cold) =
     (let observed_count = counter_get white_balls num;
          z = z_score_of observed_count expected_white
      in if z > 2 then pattern_loop white_balls expected_white nums (hot @ [(num, z, observed_count)], cold)
         else if z < -2 then pattern_loop white_balls expected_white nums (hot, cold @ [(num, z, observed_count)])
         else pattern_loop white_balls expected_white nums (hot, cold))"

text \<open>
  The generator object after \<open>__init__\<close>: the two flattened histories and the two
  lists, \<open>hot_numbers\<close> sorted by descending and \<open>cold_numbers\<close> by ascending z-score
  (both sorts are stable).  \<open>analyze_all_patterns\<close> of final\_lottery\_generator.py is the
  same code; it also stores the two counters, which are functions of the two histories.
\<close>

record generator =
  white_balls :: "int list"
  powerballs :: "int list"
  hot_numbers :: "entry list"
  cold_numbers :: "entry list"

definition analyze_patterns :: "int list \<Rightarrow> int list \<Rightarrow> generator" where
  "analyze_patterns whites pbs =
     (let expected_white = real (length whites) / 69;
          (hot, cold) = pattern_loop whites expected_white [1..69] ([], [])
      in \<lparr> white_balls = whites,
           powerballs = pbs,
           hot_numbers = sort_key (\<lambda>(num, z, count). - z) hot,
           cold_numbers = sort_key (\<lambda>(num, z, count). z) cold \<rparr>)"

text \<open>The comprehensions \<open>[hot[0] for hot in self.hot_numbers]\<close> and its cold twin.\<close>

definition hot_nums :: "generator \<Rightarrow> int list" where
  "hot_nums self = map fst (hot_numbers self)"

definition cold_nums :: "generator \<Rightarrow> int list" where
  "cold_nums self = map fst (cold_numbers self)"

text \<open>
  \<open>display_numbers\<close>: the three counts of the printed analysis line, then the returned
  pair.  The subtraction is on Python integers.
\<close>

definition display_numbers :: "generator \<Rightarrow> int list \<Rightarrow> int \<Rightarrow> (int \<times> int \<times> int) \<times> (int list \<times> int)" where
  "display_numbers self balls powerball =
     (let hot_count = int (length (filter (\<lambda>num. num \<in> set (hot_nums self)) balls));
          cold_count = int (length (filter (\<lambda>num. num \<in> set (cold_nums self)) balls));
          neutral_count = 5 - hot_count - cold_count
      in ((hot_count, cold_count, neutral_count), (balls, powerball)))"

section \<open>The random source\<close>

text \<open>
  Python's module-level generator is the only hidden state of the strategies.  It is
  modelled as an explicit stream of natural numbers (the raw outputs still to come);
  every primitive consumes the head of the stream and returns the rest.  Quantifying
  over all streams covers every outcome the library calls can have.
\<close>

type_synonym rng = "nat stream"

text \<open>\<open>random.randint(a, b)\<close>: an integer between \<open>a\<close> and \<open>b\<close>, both included.\<close>

definition random_randint :: "int \<Rightarrow> int \<Rightarrow> rng \<Rightarrow> int \<times> rng" where
  "random_randint a b g = (a + int (shd g mod nat (b - a + 1)), stl g)"

text \<open>\<open>random.choice(seq)\<close>: raises \<open>IndexError\<close> on an empty sequence.\<close>

definition random_choice :: "'a list \<Rightarrow> rng \<Rightarrow> error + ('a \<times> rng)" where
  "random_choice xs g =
     (if xs = [] then Inl IndexError else Inr (xs ! (shd g mod length xs), stl g))"


text \<open>
  \<open>random.sample(population, k)\<close>: \<open>k\<close> elements at pairwise different positions, in
  selection order; raises \<open>ValueError\<close> when \<open>k\<close> is negative or larger than the
  population.  The selection draws one remaining position at a time.
\<close>

fun sample_loop :: "'a list \<Rightarrow> nat \<Rightarrow> rng \<Rightarrow> 'a list \<times> rng" where
  "sample_loop population 0 g = ([], g)"
| "sample_loop population (Suc k) g =
     (let i = shd g mod length population;
          (rest, g') = sample_loop (take i population @ drop (Suc i) population) k (stl g)
      in (population ! i # rest, g'))"

definition random_sample :: "'a list \<Rightarrow> int \<Rightarrow> rng \<Rightarrow> error + ('a list \<times> rng)" where
  "random_sample population k g =
     (if k < 0 \<or> int (length population) < k then Inl ValueError
      else Inr (sample_loop population (nat k) g))"

section \<open>Counters\<close>

text \<open>
  \<open>Counter(xs).items()\<close>: the distinct elements in order of first occurrence, each with
  its count.  \<open>most_common(n)\<close> is the stable sort of the items by descending count, cut
  to the first \<open>n\<close>.
\<close>

definition counter_items :: "int list \<Rightarrow> (int \<times> int) list" where
  "counter_items xs = map (\<lambda>x. (x, counter_get xs x)) (rev (remdups (rev xs)))"

definition most_common :: "int list \<Rightarrow> nat \<Rightarrow> (int \<times> int) list" where
  "most_common xs n = take n (sort_key (\<lambda>(x, count). - count) (counter_items xs))"

section \<open>smart\_lottery\_generator.py: strategies\<close>

text \<open>
  Every strategy takes the generator object and the random source and returns the
  sorted white balls, the powerball and the rest of the random source, or the exception
  it raises.

  \<open>generate_hot_strategy\<close>:
\<close>

definition generate_hot_strategy :: "generator \<Rightarrow> rng \<Rightarrow> error + (int list \<times> int \<times> rng)" where
  "generate_hot_strategy self g =
     (let (hot_count, g1) = random_randint 3 4 g
      in case random_sample (hot_nums self) hot_count g1 of
           Inl e \<Rightarrow> Inl e
         | Inr (hot_selected, g2) \<Rightarrow>
             (let balls = [] @ hot_selected;
                  remaining = 5 - int (length balls);
                  available = filter (\<lambda>num. num \<notin> set balls) [1..69]
              in case random_sample available remaining g2 of
                   Inl e \<Rightarrow> Inl e
                 | Inr (extra, g3) \<Rightarrow>
                     (let (powerball, g4) = random_randint 1 26 g3
                      in Inr (sort (balls @ extra), powerball, g4))))"





section \<open>final\_lottery\_generator.py: strategies\<close>

text \<open>The loop \<open>while len(white_balls) < 5\<close> of \<open>generate_ultimate_hot_strategy\<close>.\<close>

function fill_random :: "int list \<Rightarrow> rng \<Rightarrow> error + (int list \<times> rng)" where
  "fill_random balls g =
     (if length balls < 5
      then (let available = filter (\<lambda>num. num \<notin> set balls) [1..69]
            in case random_choice available g of
                 Inl e \<Rightarrow> Inl e
               | Inr (num, g') \<Rightarrow> fill_random (balls @ [num]) g')
      else Inr (balls, g))"
  by pat_completeness auto
termination
  by (relation "measure (\<lambda>(balls, g). 5 - length balls)") auto

text \<open>
  \<open>generate_ultimate_hot_strategy\<close>, in three steps: the hot numbers, the most frequent
  numbers, and the random fill followed by the powerball.
\<close>

definition select_hot :: "generator \<Rightarrow> rng \<Rightarrow> error + (int list \<times> rng)" where
  "select_hot self g =
     (let hot_count = min 4 (int (length (hot_numbers self)))
      in if hot_count > 0
         then (case random_sample (hot_nums self) hot_count g of
                 Inl e \<Rightarrow> Inl e
               | Inr (hot_selected, g1) \<Rightarrow> Inr ([] @ hot_selected, g1))
         else Inr ([], g))"

definition select_frequent :: "generator \<Rightarrow> int list \<Rightarrow> rng \<Rightarrow> error + (int list \<times> rng)" where
  "select_frequent self balls g =
     (let remaining = 5 - int (length balls)
      in if remaining > 0
         then (let most_frequent = map fst (most_common (white_balls self) 20);
                   available_frequent = filter (\<lambda>num. num \<notin> set balls) most_frequent
               in if available_frequent \<noteq> []
                  then (case random_sample available_frequent
                               (min remaining (int (length available_frequent))) g of
                          Inl e \<Rightarrow> Inl e
                        | Inr (extra, g1) \<Rightarrow> Inr (balls @ extra, g1))
                  else Inr (balls, g))
         else Inr (balls, g))"

definition generate_ultimate_hot_strategy :: "generator \<Rightarrow> rng \<Rightarrow> error + (int list \<times> int \<times> rng)" where
  "generate_ultimate_hot_strategy self g =
     (case select_hot self g of
        Inl e \<Rightarrow> Inl e
      | Inr (balls1, g1) \<Rightarrow>
          (case select_frequent self balls1 g1 of
             Inl e \<Rightarrow> Inl e
           | Inr (balls2, g2) \<Rightarrow>
               (case fill_random balls2 g2 of
                  Inl e \<Rightarrow> Inl e
                | Inr (balls3, g3) \<Rightarrow>
                    (let most_common_pbs = map fst (most_common (powerballs self) 10)
                     in case random_choice most_common_pbs g3 of
                          Inl e \<Rightarrow> Inl e
                        | Inr (powerball, g4) \<Rightarrow> Inr (sort balls3, powerball, g4)))))"

text \<open>
  \<open>generate_frequency_weighted_strategy\<close>.  Its loop draws from the pool until five
  different numbers are collected; nothing in the code bounds the number of draws, so on
  a random source that keeps repeating numbers it does not return (\<open>None\<close>).
\<close>

partial_function (option) unique_loop :: "int list \<Rightarrow> int list \<Rightarrow> rng \<Rightarrow> (error + (int list \<times> rng)) option" where
  "unique_loop pool balls g =
     (if length balls < 5
      then (case random_choice pool g of
              Inl e \<Rightarrow> Some (Inl e)
            | Inr (num, g') \<Rightarrow>
                (if num \<notin> set balls
                 then unique_loop pool (balls @ [num]) g'
                 else unique_loop pool balls g'))
      else Some (Inr (balls, g)))"

definition generate_frequency_weighted_strategy :: "generator \<Rightarrow> rng \<Rightarrow> (error + (int list \<times> int \<times> rng)) option" where
  "generate_frequency_weighted_strategy self g =
     (case unique_loop (selection_pool (white_balls self)) [] g of
        None \<Rightarrow> None
      | Some (Inl e) \<Rightarrow> Some (Inl e)
      | Some (Inr (balls, g1)) \<Rightarrow>
          (case random_choice (pb_pool (powerballs self)) g1 of
             Inl e \<Rightarrow> Some (Inl e)
           | Inr (powerball, g2) \<Rightarrow> Some (Inr (sort balls, powerball, g2))))"



section \<open>Concrete inputs\<close>

text \<open>A table of scores for the sweep, with a tie between 4 and 6.\<close>

definition tied_scores :: "int \<Rightarrow> real" where
  "tied_scores k = (if k = 4 \<or> k = 6 then 1/2 else 1/4)"

text \<open>
  A history of three draws, flattened: 1 and 2 were drawn twice, 3 to 13 once.
\<close>

definition three_draws :: "int list" where
  "three_draws = [1, 2, 3, 4, 5] @ [1, 2, 6, 7, 8] @ [9, 10, 11, 12, 13]"

section \<open>Heat index: proofs\<close>





lemma heat_entry_Inr:
  "heat_entry balls d num = Inr row \<Longrightarrow>
     balls \<noteq> [] \<and> number row = num \<and> frequency row = counter_get balls num
     \<and> expected row = real (length balls) / real_of_int d
     \<and> z_score row = z_score_of (frequency row) (expected row)
     \<and> heat_index row = heat_index_of (z_score row)
     \<and> category row = get_heat_category (z_score row)"
  by (auto simp: heat_entry_def py_truediv_def Let_def split: if_splits)

lemma heat_entry_empty: "heat_entry [] d num = Inl ZeroDivisionError"
  by (simp add: heat_entry_def py_truediv_def)

lemma heat_entry_nonempty: "balls \<noteq> [] \<Longrightarrow> \<exists>row. heat_entry balls d num = Inr row"
  by (simp add: heat_entry_def py_truediv_def Let_def)

lemma heat_loop_Inr:
  "heat_loop balls d nums = Inr rows \<Longrightarrow> row \<in> set rows \<Longrightarrow>
     \<exists>num \<in> set nums. heat_entry balls d num = Inr row"
  by (induction nums arbitrary: rows) (auto split: sum.splits)

lemma heat_loop_empty: "nums \<noteq> [] \<Longrightarrow> heat_loop [] d nums = Inl ZeroDivisionError"
  by (cases nums) (simp_all add: heat_entry_empty)

lemma heat_loop_nonempty: "balls \<noteq> [] \<Longrightarrow> \<exists>rows. heat_loop balls d nums = Inr rows \<and> map number rows = nums"
proof (induction nums)
  case Nil then show ?case by simp
next
  case (Cons n ns)
  then obtain rows where r: "heat_loop balls d ns = Inr rows" "map number rows = ns" by auto
  from Cons.prems obtain row where e: "heat_entry balls d n = Inr row" using heat_entry_nonempty by blast
  with heat_entry_Inr have "number row = n" by blast
  with r e show ?case by simp
qed

lemma upto_ne: "[1..69] \<noteq> ([]::int list)" "[1..26] \<noteq> ([]::int list)"
  by (simp_all add: upto.simps)

lemma heat_loop_row_of:
  assumes "heat_loop balls d [1..d] = Inr rows" "row \<in> set rows"
  shows "row_of balls d row"
proof -
  from heat_loop_Inr[OF assms] obtain num where "num \<in> set [1..d]" "heat_entry balls d num = Inr row"
    by blast
  then show ?thesis using heat_entry_Inr[of balls d num row] by (simp add: row_of_def)
qed

lemma calculate_heat_index_rows:
  assumes "whites \<noteq> []" "pbs \<noteq> []"
  shows "\<exists>w p. calculate_heat_index whites pbs = Inr (w, p)
           \<and> (\<forall>row \<in> set w. row_of whites 69 row)
           \<and> (\<forall>row \<in> set p. row_of pbs 26 row)"
proof -
  obtain w0 where w0: "heat_loop whites 69 [1..69] = Inr w0" "map number w0 = [1..69]"
    using heat_loop_nonempty[OF assms(1)] by blast
  obtain p0 where p0: "heat_loop pbs 26 [1..26] = Inr p0" "map number p0 = [1..26]"
    using heat_loop_nonempty[OF assms(2)] by blast
  have c: "calculate_heat_index whites pbs = Inr (sort_by_heat w0, sort_by_heat p0)"
    using w0 p0 by (simp add: calculate_heat_index_def)
  have "\<forall>row \<in> set (sort_by_heat w0). row_of whites 69 row"
    using heat_loop_row_of[OF w0(1)] by (simp add: sort_by_heat_def)
  moreover have "\<forall>row \<in> set (sort_by_heat p0). row_of pbs 26 row"
    using heat_loop_row_of[OF p0(1)] by (simp add: sort_by_heat_def)
  ultimately show ?thesis using c by blast
qed













lemma heat_loop_Inl: "heat_loop balls d nums = Inl e \<Longrightarrow> e = ZeroDivisionError"
  by (induction nums) (auto simp: heat_entry_def py_truediv_def Let_def split: sum.splits if_splits)


lemma calculate_heat_index_empty:
  "whites = [] \<or> pbs = [] \<Longrightarrow> calculate_heat_index whites pbs = Inl ZeroDivisionError"
  by (auto simp: calculate_heat_index_def heat_loop_empty upto_ne split: sum.splits dest: heat_loop_Inl)

text \<open>
  Claim C6, as stated, fails: on the empty history the computation does stop with an
  exception, but the exception is Python's \<open>ZeroDivisionError\<close>, raised by the
  percentage of the first number; the source defines no error of its own.
\<close>

theorem empty_dataset_counterexample: "calculate_heat_index [] [] = Inl ZeroDivisionError"
  by (simp add: calculate_heat_index_def heat_entry_def py_truediv_def upto.simps)

text \<open>
  Claim C6, amended.  When the history of either domain is empty the computation
  returns no table and stops with \<open>ZeroDivisionError\<close>; on every other history it
  returns both tables.
\<close>

theorem empty_dataset_zero_division:
  "(whites = [] \<or> pbs = [] \<longrightarrow>
      calculate_heat_index whites pbs = Inl ZeroDivisionError)
   \<and> (whites \<noteq> [] \<and> pbs \<noteq> [] \<longrightarrow>
      (\<exists>w p. calculate_heat_index whites pbs = Inr (w, p)))"
proof (intro conjI impI)
  assume "whites = [] \<or> pbs = []"
  then show "calculate_heat_index whites pbs = Inl ZeroDivisionError"
    by (rule calculate_heat_index_empty)
next
  assume "whites \<noteq> [] \<and> pbs \<noteq> []"
  then have "whites \<noteq> []" "pbs \<noteq> []" by simp_all
  from calculate_heat_index_rows[OF this]
  show "\<exists>w p. calculate_heat_index whites pbs = Inr (w, p)" by blast
qed

theorem empty_dataset_zero_division_witness:
  "calculate_heat_index [] [3] = Inl ZeroDivisionError
   \<and> (\<exists>w p. calculate_heat_index [4, 8, 15, 16, 23] [3] = Inr (w, p))"
  using empty_dataset_zero_division[of "[]" "[3]"]
        empty_dataset_zero_division[of "[4, 8, 15, 16, 23]" "[3]"]
  by simp

lemma low_high_split:
  "length (filter (\<lambda>num. num \<le> 34) numbers) + length (filter (\<lambda>num. 35 \<le> num) numbers)
     = length (numbers :: int list)"
proof -
  have "(\<lambda>num::int. 35 \<le> num) = (\<lambda>num. \<not> num \<le> 34)" by auto
  then show ?thesis by (simp add: sum_length_filter_compl)
qed

text \<open>
  Claim C8.  On a draw of five numbers the low/high ratio never raises; it is the count
  of values up to 34 divided by the count of values from 35 when the latter is positive,
  and exactly 5 otherwise; it lies between 0 and 5.
\<close>

theorem low_high_ratio_total_bounded:
  assumes "length numbers = 5"
  shows "\<exists>r. calculate_low_high_ratio numbers = Inr r
     \<and> r = (if 0 < length (filter (\<lambda>num. 35 \<le> num) numbers)
            then real (length (filter (\<lambda>num. num \<le> 34) numbers))
                   / real (length (filter (\<lambda>num. 35 \<le> num) numbers))
            else 5)
     \<and> 0 \<le> r \<and> r \<le> 5"
proof -
  define lo where "lo = length (filter (\<lambda>num. num \<le> 34) numbers)"
  define hi where "hi = length (filter (\<lambda>num. 35 \<le> num) numbers)"
  have s: "lo + hi = 5" unfolding lo_def hi_def using low_high_split[of numbers] assms by simp
  then have h: "5 - int lo = int hi" by simp
  show ?thesis
  proof (cases "0 < hi")
    case True
    then have c: "calculate_low_high_ratio numbers = Inr (real lo / real hi)"
      using h by (simp add: calculate_low_high_ratio_def py_truediv_def lo_def[symmetric] Let_def)
    from True have "1 \<le> real hi" by simp
    moreover from s have "real lo \<le> 5" by simp
    ultimately have "real lo / real hi \<le> 5"
      using divide_right_mono[of "real lo" 5 "real hi"] divide_left_mono[of 1 "real hi" 5] by simp
    with c True show ?thesis unfolding lo_def[symmetric] hi_def[symmetric] by simp
  next
    case False
    then have "calculate_low_high_ratio numbers = Inr 5"
      using h by (simp add: calculate_low_high_ratio_def py_truediv_def lo_def[symmetric] Let_def)
    with False show ?thesis unfolding lo_def[symmetric] hi_def[symmetric] by simp
  qed
qed

theorem low_high_ratio_total_bounded_witness:
  "calculate_low_high_ratio [3, 17, 34, 35, 60] = Inr (3 / 2)
   \<and> calculate_low_high_ratio [1, 2, 3, 4, 5] = Inr 5"
  using low_high_ratio_total_bounded[of "[3, 17, 34, 35, 60]"]
        low_high_ratio_total_bounded[of "[1, 2, 3, 4, 5]"]
  by auto

text \<open>
  Claim C9.  The features of the draw 1, 2, 3, 4, 5: four consecutive pairs, gap
  variance 0, low/high ratio 5.0, three primes and four Fibonacci numbers.
\<close>

theorem features_of_first_five:
  "count_consecutive_pairs [1, 2, 3, 4, 5] = 4
   \<and> calculate_gap_variance [1, 2, 3, 4, 5] = 0
   \<and> calculate_low_high_ratio [1, 2, 3, 4, 5] = Inr 5.0
   \<and> count_primes [1, 2, 3, 4, 5] = 3
   \<and> count_fibonacci [1, 2, 3, 4, 5] = 4"
  by (simp add: count_consecutive_pairs_def calculate_gap_variance_def np_var_def
        calculate_low_high_ratio_def count_primes_def primes_def count_fibonacci_def fibs_def)

section \<open>The sweep over cluster counts: proofs\<close>

lemma sweep_total:
  "\<exists>k s. sweep (\<lambda>k. Inr (f k)) ks (bk, bs) = Inr (k, s) \<and>
     ((k, s) = (bk, bs) \<and> (\<forall>j \<in> set ks. f j \<le> bs)
      \<or> (\<exists>pre post. ks = pre @ k # post \<and> f k = s \<and> bs < s
            \<and> (\<forall>j \<in> set pre. f j < s) \<and> (\<forall>j \<in> set post. f j \<le> s)))"
proof (induction ks arbitrary: bk bs)
  case Nil
  then show ?case by simp
next
  case (Cons k0 ks)
  show ?case
  proof (cases "f k0 > bs")
    case True
    from Cons.IH[of k0 "f k0"] obtain k s where
      r: "sweep (\<lambda>k. Inr (f k)) ks (k0, f k0) = Inr (k, s)"
      and d: "(k, s) = (k0, f k0) \<and> (\<forall>j \<in> set ks. f j \<le> f k0)
         \<or> (\<exists>pre post. ks = pre @ k # post \<and> f k = s \<and> f k0 < s
            \<and> (\<forall>j \<in> set pre. f j < s) \<and> (\<forall>j \<in> set post. f j \<le> s))" by blast
    from r True have e: "sweep (\<lambda>k. Inr (f k)) (k0 # ks) (bk, bs) = Inr (k, s)" by simp
    from d have "\<exists>pre post. k0 # ks = pre @ k # post \<and> f k = s \<and> bs < s
            \<and> (\<forall>j \<in> set pre. f j < s) \<and> (\<forall>j \<in> set post. f j \<le> s)"
    proof
      assume a: "(k, s) = (k0, f k0) \<and> (\<forall>j \<in> set ks. f j \<le> f k0)"
      then have "k0 # ks = [] @ k # ks \<and> f k = s \<and> bs < s
            \<and> (\<forall>j \<in> set []. f j < s) \<and> (\<forall>j \<in> set ks. f j \<le> s)"
        using True by auto
      then show ?thesis by blast
    next
      assume "\<exists>pre post. ks = pre @ k # post \<and> f k = s \<and> f k0 < s
            \<and> (\<forall>j \<in> set pre. f j < s) \<and> (\<forall>j \<in> set post. f j \<le> s)"
      then obtain pre post where p: "ks = pre @ k # post" "f k = s" "f k0 < s"
            "\<forall>j \<in> set pre. f j < s" "\<forall>j \<in> set post. f j \<le> s" by blast
      then have "k0 # ks = (k0 # pre) @ k # post \<and> f k = s \<and> bs < s
            \<and> (\<forall>j \<in> set (k0 # pre). f j < s) \<and> (\<forall>j \<in> set post. f j \<le> s)"
        using True by auto
      then show ?thesis by blast
    qed
    with e show ?thesis by blast
  next
    case False
    from Cons.IH[of bk bs] obtain k s where
      r: "sweep (\<lambda>k. Inr (f k)) ks (bk, bs) = Inr (k, s)"
      and d: "(k, s) = (bk, bs) \<and> (\<forall>j \<in> set ks. f j \<le> bs)
         \<or> (\<exists>pre post. ks = pre @ k # post \<and> f k = s \<and> bs < s
            \<and> (\<forall>j \<in> set pre. f j < s) \<and> (\<forall>j \<in> set post. f j \<le> s))" by blast
    from r False have e: "sweep (\<lambda>k. Inr (f k)) (k0 # ks) (bk, bs) = Inr (k, s)" by simp
    from d have "(k, s) = (bk, bs) \<and> (\<forall>j \<in> set (k0 # ks). f j \<le> bs)
      \<or> (\<exists>pre post. k0 # ks = pre @ k # post \<and> f k = s \<and> bs < s
            \<and> (\<forall>j \<in> set pre. f j < s) \<and> (\<forall>j \<in> set post. f j \<le> s))"
    proof
      assume "(k, s) = (bk, bs) \<and> (\<forall>j \<in> set ks. f j \<le> bs)"
      with False show ?thesis by auto
    next
      assume "\<exists>pre post. ks = pre @ k # post \<and> f k = s \<and> bs < s
            \<and> (\<forall>j \<in> set pre. f j < s) \<and> (\<forall>j \<in> set post. f j \<le> s)"
      then obtain pre post where p: "ks = pre @ k # post" "f k = s" "bs < s"
            "\<forall>j \<in> set pre. f j < s" "\<forall>j \<in> set post. f j \<le> s" by blast
      then have "k0 # ks = (k0 # pre) @ k # post \<and> f k = s \<and> bs < s
            \<and> (\<forall>j \<in> set (k0 # pre). f j < s) \<and> (\<forall>j \<in> set post. f j \<le> s)"
        using False by auto
      then show ?thesis by blast
    qed
    with e show ?thesis by blast
  qed
qed

lemma upto_split_before:
  assumes "[a..b] = pre @ k # post"
  shows "set pre = {a..<k} \<and> set post = {k<..b} \<and> a \<le> k \<and> k \<le> b"
proof -
  have s: "sorted_wrt (<) (pre @ k # post)" using assms sorted_wrt_upto[of a b] by simp
  have u: "set pre \<union> {k} \<union> set post = {a..b}" using arg_cong[OF assms, of set] by auto
  from s have lt: "\<forall>x \<in> set pre. x < k" and gt: "\<forall>y \<in> set post. k < y"
    by (auto simp: sorted_wrt_append)
  from u have k: "a \<le> k" "k \<le> b" by auto
  have "set pre = {a..<k}"
  proof (intro set_eqI iffI)
    fix x assume "x \<in> set pre"
    with lt u show "x \<in> {a..<k}" by auto
  next
    fix x assume x: "x \<in> {a..<k}"
    with k u have "x \<in> set pre \<union> {k} \<union> set post" by auto
    with x gt show "x \<in> set pre" by auto
  qed
  moreover have "set post = {k<..b}"
  proof (intro set_eqI iffI)
    fix x assume "x \<in> set post"
    with gt u show "x \<in> {k<..b}" by auto
  next
    fix x assume x: "x \<in> {k<..b}"
    with k u have "x \<in> set pre \<union> {k} \<union> set post" by auto
    with x lt show "x \<in> set post" by auto
  qed
  ultimately show ?thesis using k by simp
qed

lemma clustering_analysis_result:
  "\<exists>k s. clustering_analysis (\<lambda>k. Inr (f k)) = Inr (k, s) \<and>
     ((k, s) = (3, -1) \<and> (\<forall>j \<in> {2..7}. f j \<le> -1)
      \<or> (2 \<le> k \<and> k \<le> 7 \<and> f k = s \<and> -1 < s
            \<and> (\<forall>j \<in> {2..<k}. f j < s) \<and> (\<forall>j \<in> {k<..7}. f j \<le> s)))"
proof -
  from sweep_total[of f "[2..7]" 3 "-1"] obtain k s where
    r: "sweep (\<lambda>k. Inr (f k)) [2..7] (3, -1) = Inr (k, s)"
    and d: "(k, s) = (3, -1) \<and> (\<forall>j \<in> set [2..7]. f j \<le> -1)
      \<or> (\<exists>pre post. [2..7] = pre @ k # post \<and> f k = s \<and> -1 < s
            \<and> (\<forall>j \<in> set pre. f j < s) \<and> (\<forall>j \<in> set post. f j \<le> s))" by blast
  from d have "(k, s) = (3, -1) \<and> (\<forall>j \<in> {2..7}. f j \<le> -1)
      \<or> (2 \<le> k \<and> k \<le> 7 \<and> f k = s \<and> -1 < s
            \<and> (\<forall>j \<in> {2..<k}. f j < s) \<and> (\<forall>j \<in> {k<..7}. f j \<le> s))"
  proof
    assume "(k, s) = (3, -1) \<and> (\<forall>j \<in> set [2..7]. f j \<le> -1)"
    then show ?thesis unfolding set_upto by (rule disjI1)
  next
    assume "\<exists>pre post. [2..7] = pre @ k # post \<and> f k = s \<and> -1 < s
            \<and> (\<forall>j \<in> set pre. f j < s) \<and> (\<forall>j \<in> set post. f j \<le> s)"
    then obtain pre post where p: "[2..7] = pre @ k # post" "f k = s" "-1 < s"
            "\<forall>j \<in> set pre. f j < s" "\<forall>j \<in> set post. f j \<le> s" by blast
    from upto_split_before[OF p(1)] p show ?thesis by simp
  qed
  with r show ?thesis unfolding clustering_analysis_def by blast
qed

section \<open>Pools and pattern analysis: proofs\<close>

lemma count_list_replicate: "count_list (replicate n a) x = (if a = x then n else 0)"
  by (induction n) auto

lemma count_list_concat_replicate:
  "distinct xs \<Longrightarrow>
     count_list (concat (map (\<lambda>m. replicate (w m) m) xs)) n = (if n \<in> set xs then w n else 0)"
  by (induction xs) (auto simp: count_list_replicate)

lemma weighted_pool_count:
  "distinct domain \<Longrightarrow>
     int (count_list (weighted_pool history domain divisor) n)
       = (if n \<in> set domain then max 1 (counter_get history n div divisor) else 0)"
proof -
  assume d: "distinct domain"
  have "0 \<le> max 1 (counter_get history n div divisor)" by simp
  then show ?thesis
    unfolding weighted_pool_def Let_def
    using count_list_concat_replicate[OF d, of "\<lambda>num. nat (max 1 (counter_get history num div divisor))" n]
    by simp
qed

lemma weighted_pool_set: "set (weighted_pool history domain divisor) = set domain"
  by (auto simp: weighted_pool_def Let_def)

text \<open>
  Claim C7.  In the white-ball pool every number from 1 to 69 occurs exactly
  \<open>max(1, count // 10)\<close> times, in the powerball pool every number from 1 to 26
  exactly \<open>max(1, count // 5)\<close> times, and neither pool holds any other number.
\<close>

theorem frequency_pool_weights:
  "(\<forall>n \<in> {1..69}. int (count_list (selection_pool whites) n) = max 1 (counter_get whites n div 10))
   \<and> set (selection_pool whites) = {1..69}
   \<and> (\<forall>n \<in> {1..26}. int (count_list (pb_pool pbs) n) = max 1 (counter_get pbs n div 5))
   \<and> set (pb_pool pbs) = {1..26}"
  by (simp add: selection_pool_def pb_pool_def weighted_pool_count weighted_pool_set)

theorem frequency_pool_weights_witness:
  "count_list (selection_pool (replicate 25 7)) 7 = 2
   \<and> count_list (selection_pool (replicate 25 7)) 8 = 1
   \<and> count_list (pb_pool (replicate 25 7)) 7 = 5"
proof -
  have w: "\<forall>n \<in> {1..69}. int (count_list (selection_pool (replicate 25 7)) n)
              = max 1 (counter_get (replicate 25 7) n div 10)"
    and p: "\<forall>n \<in> {1..26}. int (count_list (pb_pool (replicate 25 7)) n)
              = max 1 (counter_get (replicate 25 7) n div 5)"
    using frequency_pool_weights[of "replicate 25 7" "replicate 25 7"] by blast+
  have "int (count_list (selection_pool (replicate 25 7)) 7) = 2"
    using bspec[OF w, of 7] by (simp add: counter_get_def count_list_replicate)
  moreover have "int (count_list (selection_pool (replicate 25 7)) 8) = 1"
    using bspec[OF w, of 8] by (simp add: counter_get_def count_list_replicate)
  moreover have "int (count_list (pb_pool (replicate 25 7)) 7) = 5"
    using bspec[OF p, of 7] by (simp add: counter_get_def count_list_replicate)
  ultimately show ?thesis by simp
qed

text \<open>z-score comparisons without the square root\<close>

lemma z_score_gt_2:
  assumes "0 < e"
  shows "(2 < z_score_of c e) = (e < real_of_int c \<and> 4 * e < (real_of_int c - e)\<^sup>2)"
proof -
  have s: "0 < sqrt e" using assms by simp
  have "(2 < z_score_of c e) = (2 * sqrt e < real_of_int c - e)"
    unfolding z_score_of_def using s by (simp add: pos_less_divide_eq)
  also have "\<dots> = (e < real_of_int c \<and> (2 * sqrt e)\<^sup>2 < (real_of_int c - e)\<^sup>2)"
  proof
    assume a: "2 * sqrt e < real_of_int c - e"
    with s have "0 < real_of_int c - e" by linarith
    moreover from a s have "(2 * sqrt e)\<^sup>2 < (real_of_int c - e)\<^sup>2"
      by (intro power_strict_mono) auto
    ultimately show "e < real_of_int c \<and> (2 * sqrt e)\<^sup>2 < (real_of_int c - e)\<^sup>2" by simp
  next
    assume "e < real_of_int c \<and> (2 * sqrt e)\<^sup>2 < (real_of_int c - e)\<^sup>2"
    then show "2 * sqrt e < real_of_int c - e"
      using power2_less_imp_less[of "2 * sqrt e" "real_of_int c - e"] by simp
  qed
  also have "(2 * sqrt e)\<^sup>2 = 4 * e" using assms by (simp add: power_mult_distrib)
  finally show ?thesis .
qed

lemma z_score_lt_minus_2:
  assumes "0 < e"
  shows "(z_score_of c e < -2) = (real_of_int c < e \<and> 4 * e < (e - real_of_int c)\<^sup>2)"
proof -
  have s: "0 < sqrt e" using assms by simp
  have "(z_score_of c e < -2) = (2 * sqrt e < e - real_of_int c)"
    unfolding z_score_of_def using s by (simp add: pos_divide_less_eq) linarith
  also have "\<dots> = (real_of_int c < e \<and> (2 * sqrt e)\<^sup>2 < (e - real_of_int c)\<^sup>2)"
  proof
    assume a: "2 * sqrt e < e - real_of_int c"
    with s have "0 < e - real_of_int c" by linarith
    moreover from a s have "(2 * sqrt e)\<^sup>2 < (e - real_of_int c)\<^sup>2"
      by (intro power_strict_mono) auto
    ultimately show "real_of_int c < e \<and> (2 * sqrt e)\<^sup>2 < (e - real_of_int c)\<^sup>2" by simp
  next
    assume "real_of_int c < e \<and> (2 * sqrt e)\<^sup>2 < (e - real_of_int c)\<^sup>2"
    then show "2 * sqrt e < e - real_of_int c"
      using power2_less_imp_less[of "2 * sqrt e" "e - real_of_int c"] by simp
  qed
  also have "(2 * sqrt e)\<^sup>2 = 4 * e" using assms by (simp add: power_mult_distrib)
  finally show ?thesis .
qed

lemma pattern_loop_fst:
  "pattern_loop wb e nums (hot, cold) = (hot', cold') \<Longrightarrow>
     map fst hot' = map fst hot @ filter (\<lambda>n. 2 < z_score_of (counter_get wb n) e) nums
     \<and> map fst cold' = map fst cold
          @ filter (\<lambda>n. \<not> 2 < z_score_of (counter_get wb n) e \<and> z_score_of (counter_get wb n) e < -2) nums"
  by (induction nums arbitrary: hot cold) (auto simp: Let_def split: if_splits)

lemma insort_key_map_distinct:
  "distinct (map g (insort_key f x xs)) = (g x \<notin> g ` set xs \<and> distinct (map g xs))"
  by (induction xs) (auto simp: set_insort_key)

lemma sort_key_map_distinct: "distinct (map g (sort_key f xs)) = distinct (map g xs)"
  by (induction xs) (auto simp: insort_key_map_distinct)

lemma hot_nums_set:
  "set (hot_nums (analyze_patterns whites pbs))
     = {n \<in> {1..69}. 2 < z_score_of (counter_get whites n) (real (length whites) / 69)}"
proof -
  obtain hot cold where p: "pattern_loop whites (real (length whites) / 69) [1..69] ([], []) = (hot, cold)"
    by (cases "pattern_loop whites (real (length whites) / 69) [1..69] ([], [])")
  from pattern_loop_fst[OF p]
  have "map fst hot = filter (\<lambda>n. 2 < z_score_of (counter_get whites n) (real (length whites) / 69)) [1..69]"
    by simp
  then have "set (map fst hot)
      = set (filter (\<lambda>n. 2 < z_score_of (counter_get whites n) (real (length whites) / 69)) [1..69])"
    by (rule arg_cong)
  then have "fst ` set hot = {n \<in> {1..69}. 2 < z_score_of (counter_get whites n) (real (length whites) / 69)}"
    by (simp only: set_map set_filter set_upto)
  then show ?thesis using p by (simp add: hot_nums_def analyze_patterns_def)
qed

lemma cold_nums_set:
  "set (cold_nums (analyze_patterns whites pbs))
     = {n \<in> {1..69}. \<not> 2 < z_score_of (counter_get whites n) (real (length whites) / 69)
                      \<and> z_score_of (counter_get whites n) (real (length whites) / 69) < -2}"
proof -
  obtain hot cold where p: "pattern_loop whites (real (length whites) / 69) [1..69] ([], []) = (hot, cold)"
    by (cases "pattern_loop whites (real (length whites) / 69) [1..69] ([], [])")
  from pattern_loop_fst[OF p]
  have "map fst cold = filter (\<lambda>n. \<not> 2 < z_score_of (counter_get whites n) (real (length whites) / 69)
                      \<and> z_score_of (counter_get whites n) (real (length whites) / 69) < -2) [1..69]"
    by simp
  then have "set (map fst cold)
      = set (filter (\<lambda>n. \<not> 2 < z_score_of (counter_get whites n) (real (length whites) / 69)
                      \<and> z_score_of (counter_get whites n) (real (length whites) / 69) < -2) [1..69])"
    by (rule arg_cong)
  then have "fst ` set cold = {n \<in> {1..69}. \<not> 2 < z_score_of (counter_get whites n) (real (length whites) / 69)
                      \<and> z_score_of (counter_get whites n) (real (length whites) / 69) < -2}"
    by (simp only: set_map set_filter set_upto)
  then show ?thesis using p by (simp add: cold_nums_def analyze_patterns_def)
qed

lemma hot_nums_distinct: "distinct (hot_nums (analyze_patterns whites pbs))"
proof -
  obtain hot cold where p: "pattern_loop whites (real (length whites) / 69) [1..69] ([], []) = (hot, cold)"
    by (cases "pattern_loop whites (real (length whites) / 69) [1..69] ([], [])")
  from pattern_loop_fst[OF p] have "distinct (map fst hot)" by simp
  then show ?thesis using p by (simp add: hot_nums_def analyze_patterns_def sort_key_map_distinct)
qed

lemma cold_nums_distinct: "distinct (cold_nums (analyze_patterns whites pbs))"
proof -
  obtain hot cold where p: "pattern_loop whites (real (length whites) / 69) [1..69] ([], []) = (hot, cold)"
    by (cases "pattern_loop whites (real (length whites) / 69) [1..69] ([], [])")
  from pattern_loop_fst[OF p] have "distinct (map fst cold)" by simp
  then show ?thesis using p by (simp add: cold_nums_def analyze_patterns_def sort_key_map_distinct)
qed

lemma filter_disjoint_length:
  "(\<And>x. \<not> (P x \<and> Q x)) \<Longrightarrow> length (filter P xs) + length (filter Q xs) \<le> length xs"
  by (induction xs) auto

text \<open>
  What the sweep returns for any table of scores between -1 and 1: the first candidate
  with the highest score, unless no score exceeds the starting value.
\<close>

lemma sweep_result:
  assumes "\<forall>k \<in> {2..7}. -1 \<le> f k \<and> f k \<le> 1"
  shows "\<exists>k s. clustering_analysis (Inr \<circ> f) = Inr (k, s)
           \<and> 2 \<le> k \<and> k \<le> 7 \<and> -1 \<le> s \<and> s \<le> 1
           \<and> (\<forall>j \<in> {2..7}. f j \<le> s)
           \<and> (if \<exists>j \<in> {2..7}. -1 < f j
               then f k = s \<and> (\<forall>j \<in> {2..<k}. f j < s)
               else k = 3 \<and> s = -1)"
proof -
  from clustering_analysis_result[of f] obtain k s where
    r: "clustering_analysis (\<lambda>k. Inr (f k)) = Inr (k, s)"
    and d: "(k, s) = (3, -1) \<and> (\<forall>j \<in> {2..7}. f j \<le> -1)
      \<or> (2 \<le> k \<and> k \<le> 7 \<and> f k = s \<and> -1 < s
            \<and> (\<forall>j \<in> {2..<k}. f j < s) \<and> (\<forall>j \<in> {k<..7}. f j \<le> s))" by blast
  have r': "clustering_analysis (Inr \<circ> f) = Inr (k, s)" using r by (simp add: comp_def)
  from d have "2 \<le> k \<and> k \<le> 7 \<and> -1 \<le> s \<and> s \<le> 1
           \<and> (\<forall>j \<in> {2..7}. f j \<le> s)
           \<and> (if \<exists>j \<in> {2..7}. -1 < f j
               then f k = s \<and> (\<forall>j \<in> {2..<k}. f j < s)
               else k = 3 \<and> s = -1)"
  proof
    assume a: "(k, s) = (3, -1) \<and> (\<forall>j \<in> {2..7}. f j \<le> -1)"
    then have "\<not> (\<exists>j \<in> {2..7}. -1 < f j)" by force
    with a show ?thesis by simp
  next
    assume a: "2 \<le> k \<and> k \<le> 7 \<and> f k = s \<and> -1 < s
            \<and> (\<forall>j \<in> {2..<k}. f j < s) \<and> (\<forall>j \<in> {k<..7}. f j \<le> s)"
    then have k: "k \<in> {2..7}" by simp
    with assms a have s1: "s \<le> 1" by blast
    have all: "\<forall>j \<in> {2..7}. f j \<le> s"
    proof
      fix j :: int assume j: "j \<in> {2..7}"
      from a have lo: "\<forall>j \<in> {2..<k}. f j < s" and hi: "\<forall>j \<in> {k<..7}. f j \<le> s"
        and e: "f k = s" by blast+
      have "j < k \<or> j = k \<or> k < j" by linarith
      then show "f j \<le> s"
      proof (elim disjE)
        assume "j < k"
        with j have "j \<in> {2..<k}" by simp
        with lo have "f j < s" by (rule bspec)
        then show ?thesis by simp
      next
        assume "j = k"
        with e show ?thesis by simp
      next
        assume "k < j"
        with j have "j \<in> {k<..7}" by simp
        with hi show ?thesis by (rule bspec)
      qed
    qed
    from k a have "\<exists>j \<in> {2..7}. -1 < f j" by blast
    with a s1 all show ?thesis by simp
  qed
  with r' show ?thesis by blast
qed

lemma sweep_step:
  "sweep (Inr \<circ> f) (k0 # ks) (best_k, best_score)
     = sweep (Inr \<circ> f) ks (if best_score < f k0 then (k0, f k0) else (best_k, best_score))"
  by simp

text \<open>
  Claim C3.  The silhouette score of a clustering is a mean of values of which not all
  can be -1, so a score the library returns is above -1 and at most 1.  Whenever the
  library returns a score for each of the six candidates, the sweep visits 2, ..., 7 in
  this order and replaces the running best exactly when the candidate's score is
  strictly greater (first conjunct); it returns a pair \<open>(k, s)\<close> with \<open>k\<close> between 2
  and 7 and \<open>s\<close> between -1 and 1, where \<open>s\<close> is the score of \<open>k\<close>, no candidate
  scores above \<open>s\<close>, and every candidate before \<open>k\<close> scores strictly below \<open>s\<close>: the
  first of tied candidates wins.
\<close>

theorem sweep_first_best:
  assumes "\<forall>k \<in> {2..7}. -1 < f k \<and> f k \<le> 1"
  shows "sweep (Inr \<circ> f) (k0 # ks) (best_k, best_score)
           = sweep (Inr \<circ> f) ks (if best_score < f k0 then (k0, f k0) else (best_k, best_score))
         \<and> clustering_analysis (Inr \<circ> f) = sweep (Inr \<circ> f) [2, 3, 4, 5, 6, 7] (3, -1)
         \<and> (\<exists>k s. clustering_analysis (Inr \<circ> f) = Inr (k, s)
               \<and> 2 \<le> k \<and> k \<le> 7 \<and> -1 \<le> s \<and> s \<le> 1
               \<and> f k = s
               \<and> (\<forall>j \<in> {2..7}. f j \<le> s)
               \<and> (\<forall>j \<in> {2..<k}. f j < s))"
proof (intro conjI)
  show "sweep (Inr \<circ> f) (k0 # ks) (best_k, best_score)
           = sweep (Inr \<circ> f) ks (if best_score < f k0 then (k0, f k0) else (best_k, best_score))"
    by (rule sweep_step)
  show "clustering_analysis (Inr \<circ> f) = sweep (Inr \<circ> f) [2, 3, 4, 5, 6, 7] (3, -1)"
    by (simp add: clustering_analysis_def upto.simps)
  from assms have h: "\<forall>k \<in> {2..7}. -1 \<le> f k \<and> f k \<le> 1" by force
  from sweep_result[OF h] obtain k s where
    r: "clustering_analysis (Inr \<circ> f) = Inr (k, s)"
    and k: "2 \<le> k" "k \<le> 7" and s: "-1 \<le> s" "s \<le> 1"
    and m: "\<forall>j \<in> {2..7}. f j \<le> s"
    and c: "if \<exists>j \<in> {2..7}. -1 < f j
               then f k = s \<and> (\<forall>j \<in> {2..<k}. f j < s)
               else k = 3 \<and> s = -1" by blast
  from assms have "-1 < f 2" by simp
  then have "\<exists>j \<in> {2..7}. -1 < f j" by (intro bexI[of _ 2]) simp_all
  with c have "f k = s" "\<forall>j \<in> {2..<k}. f j < s" by simp_all
  with r k s m show "\<exists>k s. clustering_analysis (Inr \<circ> f) = Inr (k, s)
               \<and> 2 \<le> k \<and> k \<le> 7 \<and> -1 \<le> s \<and> s \<le> 1
               \<and> f k = s
               \<and> (\<forall>j \<in> {2..7}. f j \<le> s)
               \<and> (\<forall>j \<in> {2..<k}. f j < s)" by blast
qed

theorem sweep_first_best_witness:
  "clustering_analysis (Inr \<circ> tied_scores) = Inr (4, 1/2)"
proof -
  have h: "\<forall>k \<in> {2..7}. -1 < tied_scores k \<and> tied_scores k \<le> 1"
    by (simp add: tied_scores_def)
  from sweep_first_best[OF h, of 2 "[]" 3 "-1"] obtain k s where
    r: "clustering_analysis (Inr \<circ> tied_scores) = Inr (k, s)"
    and e: "tied_scores k = s"
    and m: "\<forall>j \<in> {2..7}. tied_scores j \<le> s"
    and b: "\<forall>j \<in> {2..<k}. tied_scores j < s" by blast
  from m have "tied_scores 4 \<le> s" by simp
  with e have s: "s = 1/2" by (simp add: tied_scores_def split: if_splits)
  with e have "k = 4 \<or> k = 6" by (simp add: tied_scores_def split: if_splits)
  moreover have "k \<noteq> 6"
  proof
    assume "k = 6"
    with b have "tied_scores 4 < s" by simp
    with s show False by (simp add: tied_scores_def)
  qed
  ultimately have "k = 4" by simp
  with r s show ?thesis by simp
qed

lemma hot_cold_facts:
  "set (hot_nums (analyze_patterns whites pbs)) \<inter> set (cold_nums (analyze_patterns whites pbs)) = {}
   \<and> set (hot_nums (analyze_patterns whites pbs)) \<subseteq> {1..69}
   \<and> set (cold_nums (analyze_patterns whites pbs)) \<subseteq> {1..69}"
  unfolding hot_nums_set cold_nums_set by blast

lemma display_counts:
  assumes "set (hot_nums self) \<inter> set (cold_nums self) = {}" "length balls = 5"
  shows "\<exists>h c n. fst (display_numbers self balls pb) = (h, c, n)
           \<and> h + c + n = 5 \<and> 0 \<le> h \<and> 0 \<le> c \<and> 0 \<le> n"
proof -
  have "length (filter (\<lambda>num. num \<in> set (hot_nums self)) balls)
        + length (filter (\<lambda>num. num \<in> set (cold_nums self)) balls) \<le> length balls"
    using assms(1) by (intro filter_disjoint_length) blast
  with assms(2) show ?thesis by (simp add: display_numbers_def Let_def)
qed

text \<open>
  Claim C10.  The hot numbers are the numbers of 1..69 with z-score above 2, the cold
  numbers those with z-score below -2; the two sets are disjoint subsets of 1..69; and
  for five distinct white balls the three counts of the printed analysis are non-negative
  and add up to 5.
\<close>

theorem hot_cold_disjoint_composition:
  "set (hot_nums (analyze_patterns whites pbs))
      = {n \<in> {1..69}. 2 < z_score_of (counter_get whites n) (real (length whites) / 69)}
   \<and> set (cold_nums (analyze_patterns whites pbs))
      = {n \<in> {1..69}. z_score_of (counter_get whites n) (real (length whites) / 69) < -2}
   \<and> set (hot_nums (analyze_patterns whites pbs)) \<inter> set (cold_nums (analyze_patterns whites pbs)) = {}
   \<and> set (hot_nums (analyze_patterns whites pbs)) \<subseteq> {1..69}
   \<and> set (cold_nums (analyze_patterns whites pbs)) \<subseteq> {1..69}
   \<and> (length balls = 5 \<and> distinct balls \<longrightarrow>
        (\<exists>h c n. fst (display_numbers (analyze_patterns whites pbs) balls pb) = (h, c, n)
           \<and> h + c + n = 5 \<and> 0 \<le> h \<and> 0 \<le> c \<and> 0 \<le> n))"
proof (intro conjI impI)
  show "set (hot_nums (analyze_patterns whites pbs))
      = {n \<in> {1..69}. 2 < z_score_of (counter_get whites n) (real (length whites) / 69)}"
    by (rule hot_nums_set)
  show "set (cold_nums (analyze_patterns whites pbs))
      = {n \<in> {1..69}. z_score_of (counter_get whites n) (real (length whites) / 69) < -2}"
    unfolding cold_nums_set by auto
  show "set (hot_nums (analyze_patterns whites pbs)) \<inter> set (cold_nums (analyze_patterns whites pbs)) = {}"
    "set (hot_nums (analyze_patterns whites pbs)) \<subseteq> {1..69}"
    "set (cold_nums (analyze_patterns whites pbs)) \<subseteq> {1..69}"
    using hot_cold_facts[of whites pbs] by blast+
next
  assume "length balls = 5 \<and> distinct balls"
  then have "length balls = 5" by simp
  with hot_cold_facts[of whites pbs]
  show "\<exists>h c n. fst (display_numbers (analyze_patterns whites pbs) balls pb) = (h, c, n)
           \<and> h + c + n = 5 \<and> 0 \<le> h \<and> 0 \<le> c \<and> 0 \<le> n"
    by (intro display_counts) blast+
qed

lemma three_draws_count:
  "counter_get three_draws n
     = (if n = 1 \<or> n = 2 then 2 else if n \<in> {3, 4, 5, 6, 7, 8, 9, 10, 11, 12, 13} then 1 else 0)"
  by (simp add: three_draws_def counter_get_def)

lemma three_draws_hot: "set (hot_nums (analyze_patterns three_draws pbs)) = {1, 2}"
proof -
  have e: "real (length three_draws) / 69 = 5 / 23" by (simp add: three_draws_def)
  have "2 < z_score_of (counter_get three_draws n) (5 / 23) \<longleftrightarrow> n = 1 \<or> n = 2" for n
    by (simp add: z_score_gt_2 three_draws_count power2_eq_square)
  then show ?thesis unfolding hot_nums_set e by auto
qed

lemma three_draws_cold: "set (cold_nums (analyze_patterns three_draws pbs)) = {}"
proof -
  have e: "real (length three_draws) / 69 = 5 / 23" by (simp add: three_draws_def)
  have "\<not> z_score_of (counter_get three_draws n) (5 / 23) < -2" for n
    by (simp add: z_score_lt_minus_2 three_draws_count power2_eq_square)
  then show ?thesis unfolding cold_nums_set e by auto
qed

theorem hot_cold_disjoint_composition_witness:
  "set (hot_nums (analyze_patterns three_draws [4, 9, 20])) = {1, 2}
   \<and> fst (display_numbers (analyze_patterns three_draws [4, 9, 20]) [1, 2, 30, 40, 50] 7) = (2, 0, 3)"
proof -
  have b: "length [1, 2, 30, 40, 50 :: int] = 5 \<and> distinct [1, 2, 30, 40, 50 :: int]" by simp
  from hot_cold_disjoint_composition[of three_draws "[4, 9, 20]" "[1, 2, 30, 40, 50]" 7] b
  obtain h c n where
    d: "fst (display_numbers (analyze_patterns three_draws [4, 9, 20]) [1, 2, 30, 40, 50] 7) = (h, c, n)"
    and t: "h + c + n = 5" by blast
  have "h = 2" "c = 0" using d
    by (simp_all add: display_numbers_def Let_def three_draws_hot three_draws_cold)
  with t have "n = 3" by simp
  with d \<open>h = 2\<close> \<open>c = 0\<close> show ?thesis by (simp add: three_draws_hot)
qed

section \<open>The random source and the strategies: proofs\<close>

declare fill_random.simps [simp del]

lemma sample_loop_props:
  "k \<le> length population \<Longrightarrow> distinct population \<Longrightarrow>
     length (fst (sample_loop population k g)) = k
     \<and> set (fst (sample_loop population k g)) \<subseteq> set population
     \<and> distinct (fst (sample_loop population k g))"
proof (induction k arbitrary: population g)
  case 0
  then show ?case by simp
next
  case (Suc k)
  define i where "i = shd g mod length population"
  define others where "others = take i population @ drop (Suc i) population"
  from Suc.prems(1) have "0 < length population" by (cases population) simp_all
  then have i: "i < length population" unfolding i_def by (rule mod_less_divisor)
  have p: "population = take i population @ population ! i # drop (Suc i) population"
    using i by (simp add: id_take_nth_drop)
  have dp: "distinct (take i population @ population ! i # drop (Suc i) population)"
    using Suc.prems(2) p by simp
  from dp have d: "distinct others" "population ! i \<notin> set others"
    unfolding others_def by auto
  have l: "k \<le> length others" using Suc.prems(1) i unfolding others_def by simp
  have sub: "set others \<subseteq> set population"
    unfolding others_def using set_take_subset[of i population] set_drop_subset[of "Suc i" population]
    by auto
  have m: "population ! i \<in> set population" using i by simp
  obtain rest g' where q: "sample_loop others k (stl g) = (rest, g')"
    by (cases "sample_loop others k (stl g)")
  from Suc.IH[OF l d(1), of "stl g"] q
  have ih: "length rest = k" "set rest \<subseteq> set others" "distinct rest" by simp_all
  have e: "sample_loop population (Suc k) g = (population ! i # rest, g')"
    using q by (simp add: Let_def i_def[symmetric] others_def[symmetric])
  from ih sub d(2) m show ?case unfolding e by auto
qed

lemma random_sample_Inr:
  assumes "random_sample population k g = Inr (xs, g')" "distinct population"
  shows "0 \<le> k \<and> k \<le> int (length population) \<and> length xs = nat k
         \<and> set xs \<subseteq> set population \<and> distinct xs"
proof -
  from assms(1) have k: "0 \<le> k" "k \<le> int (length population)"
    and v: "sample_loop population (nat k) g = (xs, g')"
    by (auto simp: random_sample_def split: if_splits)
  from k have "nat k \<le> length population" by simp
  from sample_loop_props[OF this assms(2), of g] v k show ?thesis by simp
qed

lemma random_sample_returns:
  "0 \<le> k \<Longrightarrow> k \<le> int (length population) \<Longrightarrow>
     \<exists>xs g'. random_sample population k g = Inr (xs, g')"
  by (cases "sample_loop population (nat k) g") (simp add: random_sample_def)

lemma random_sample_ValueError:
  "int (length population) < k \<Longrightarrow> random_sample population k g = Inl ValueError"
  by (simp add: random_sample_def)

lemma random_choice_returns:
  "xs \<noteq> [] \<Longrightarrow> \<exists>x. random_choice xs g = Inr (x, stl g) \<and> x \<in> set xs"
  by (simp add: random_choice_def)

lemma random_randint_range:
  "a \<le> b \<Longrightarrow> a \<le> fst (random_randint a b g) \<and> fst (random_randint a b g) \<le> b"
proof -
  assume "a \<le> b"
  then have "0 < nat (b - a + 1)" by simp
  then have "shd g mod nat (b - a + 1) < nat (b - a + 1)" by (rule mod_less_divisor)
  then show ?thesis by (simp add: random_randint_def)
qed




lemma available_length:
  "69 \<le> length (filter (\<lambda>num. num \<notin> set balls) [1..69]) + card (set balls)"
proof -
  define available where "available = filter (\<lambda>num. num \<notin> set balls) [1..69]"
  have "{1..69::int} \<subseteq> set available \<union> set balls" unfolding available_def by auto
  moreover have "finite (set available \<union> set balls)" by simp
  ultimately have "card {1..69::int} \<le> card (set available \<union> set balls)"
    by (rule card_mono[rotated])
  also have "\<dots> \<le> card (set available) + card (set balls)"
    by (rule card_Un_le)
  also have "card (set available) \<le> length available"
    by (rule card_length)
  finally show ?thesis unfolding available_def by simp
qed







lemma weighted_pool_nonempty: "domain \<noteq> [] \<Longrightarrow> weighted_pool history domain divisor \<noteq> []"
proof -
  assume "domain \<noteq> []"
  then have "set (weighted_pool history domain divisor) \<noteq> {}"
    by (simp add: weighted_pool_set)
  then show ?thesis by auto
qed


lemma generate_hot_strategy_small_pool:
  assumes "length (hot_nums self) < 3"
  shows "generate_hot_strategy self g = Inl ValueError"
proof -
  obtain hot_count g1 where r: "random_randint 3 4 g = (hot_count, g1)"
    by (cases "random_randint 3 4 g")
  from random_randint_range[of 3 4 g] r have "3 \<le> hot_count" by simp
  with assms have "int (length (hot_nums self)) < hot_count" by simp
  then have "random_sample (hot_nums self) hot_count g1 = Inl ValueError"
    by (rule random_sample_ValueError)
  with r show ?thesis by (simp add: generate_hot_strategy_def)
qed

lemma three_draws_hot_length: "length (hot_nums (analyze_patterns three_draws pbs)) = 2"
proof -
  have "distinct (hot_nums (analyze_patterns three_draws pbs))" by (rule hot_nums_distinct)
  then have "length (hot_nums (analyze_patterns three_draws pbs))
      = card (set (hot_nums (analyze_patterns three_draws pbs)))"
    by (simp add: distinct_card)
  also have "\<dots> = 2" unfolding three_draws_hot by simp
  finally show ?thesis .
qed

text \<open>
  Claim C4.  With the three-draw history the hot numbers are exactly 1 and 2.  On this
  input \<open>generate_hot_strategy\<close> asks \<open>random.sample\<close> for 3 or 4 of the 2 hot
  numbers and stops with \<open>ValueError\<close>, on every random source: it returns no white
  balls and does not fall back to the unused domain.
\<close>

theorem hot_strategy_two_hot_numbers:
  "set (hot_nums (analyze_patterns three_draws [4, 9, 20])) = {1, 2}
   \<and> generate_hot_strategy (analyze_patterns three_draws [4, 9, 20]) g = Inl ValueError"
proof -
  have "length (hot_nums (analyze_patterns three_draws [4, 9, 20])) < 3"
    by (simp add: three_draws_hot_length)
  then have "generate_hot_strategy (analyze_patterns three_draws [4, 9, 20]) g = Inl ValueError"
    by (rule generate_hot_strategy_small_pool)
  then show ?thesis by (simp add: three_draws_hot)
qed

lemma select_hot_returns:
  assumes "distinct (hot_nums self)"
  shows "\<exists>b g1. select_hot self g = Inr (b, g1) \<and> distinct b \<and> length b \<le> 4
           \<and> set b \<subseteq> set (hot_nums self)"
proof -
  define hot_count where "hot_count = min 4 (int (length (hot_numbers self)))"
  have len: "length (hot_numbers self) = length (hot_nums self)" by (simp add: hot_nums_def)
  show ?thesis
  proof (cases "hot_count > 0")
    case False
    then show ?thesis by (simp add: select_hot_def hot_count_def[symmetric] Let_def)
  next
    case True
    have le: "hot_count \<le> int (length (hot_nums self))" unfolding hot_count_def len by simp
    from True have "0 \<le> hot_count" by simp
    from random_sample_returns[OF this le, of g] obtain b g1 where
      s: "random_sample (hot_nums self) hot_count g = Inr (b, g1)" by blast
    from random_sample_Inr[OF s assms] have p: "length b = nat hot_count"
      "set b \<subseteq> set (hot_nums self)" "distinct b" by simp_all
    have "nat hot_count \<le> 4" unfolding hot_count_def by simp
    with p s True show ?thesis by (simp add: select_hot_def hot_count_def[symmetric] Let_def)
  qed
qed

lemma counter_items_keys: "map fst (counter_items xs) = rev (remdups (rev xs))"
  by (simp add: counter_items_def comp_def)

lemma most_common_distinct: "distinct (map fst (most_common xs n))"
proof -
  have "distinct (map fst (counter_items xs))" by (simp add: counter_items_keys)
  then have "distinct (map fst (sort_key (\<lambda>(x, count). - count) (counter_items xs)))"
    by (simp add: sort_key_map_distinct)
  then have "distinct (take n (map fst (sort_key (\<lambda>(x, count). - count) (counter_items xs))))"
    by (rule distinct_take)
  then show ?thesis by (simp add: most_common_def take_map)
qed

lemma most_common_nonempty: "xs \<noteq> [] \<Longrightarrow> 0 < n \<Longrightarrow> most_common xs n \<noteq> []"
proof -
  assume ne: "xs \<noteq> []" and n: "0 < n"
  from ne have "length (counter_items xs) \<noteq> 0" by (simp add: counter_items_def)
  then have "length (sort_key (\<lambda>(x, count). - count) (counter_items xs)) \<noteq> 0" by simp
  with n have "length (most_common xs n) \<noteq> 0" by (simp add: most_common_def)
  then show ?thesis by auto
qed

lemma select_frequent_returns:
  assumes "distinct balls" "length balls \<le> 5"
  shows "\<exists>b g1. select_frequent self balls g = Inr (b, g1) \<and> distinct b \<and> length b \<le> 5"
proof -
  define remaining where "remaining = 5 - int (length balls)"
  define frequent where "frequent = filter (\<lambda>num. num \<notin> set balls) (map fst (most_common (white_balls self) 20))"
  have fd: "distinct frequent" unfolding frequent_def using most_common_distinct by simp
  have fs: "set frequent \<inter> set balls = {}" unfolding frequent_def by auto
  show ?thesis
  proof (cases "remaining > 0 \<and> frequent \<noteq> []")
    case False
    with assms show ?thesis
      by (auto simp: select_frequent_def remaining_def[symmetric] frequent_def[symmetric] Let_def)
  next
    case True
    define k where "k = min remaining (int (length frequent))"
    from True have k0: "0 \<le> k" unfolding k_def by simp
    have kl: "k \<le> int (length frequent)" unfolding k_def by simp
    from random_sample_returns[OF k0 kl, of g] obtain extra g1 where
      s: "random_sample frequent k g = Inr (extra, g1)" by blast
    from random_sample_Inr[OF s fd] have p: "length extra = nat k"
      "set extra \<subseteq> set frequent" "distinct extra" by simp_all
    have "nat k \<le> nat remaining" unfolding k_def by simp
    with p(1) assms(2) have l: "length (balls @ extra) \<le> 5" unfolding remaining_def by simp
    have d: "distinct (balls @ extra)" using assms(1) p fs by auto
    have "select_frequent self balls g = Inr (balls @ extra, g1)"
      using True s
      by (simp add: select_frequent_def remaining_def[symmetric] frequent_def[symmetric]
          k_def[symmetric] Let_def)
    with l d show ?thesis by simp
  qed
qed

lemma available_nonempty:
  assumes "length balls < 5"
  shows "filter (\<lambda>num. num \<notin> set balls) [1..69] \<noteq> []"
proof
  assume "filter (\<lambda>num. num \<notin> set balls) [1..69] = []"
  with available_length[of balls] have "69 \<le> card (set balls)" by simp
  moreover have "card (set balls) \<le> length balls" by (rule card_length)
  ultimately show False using assms by simp
qed

lemma fill_random_returns:
  "distinct balls \<Longrightarrow> length balls \<le> 5 \<Longrightarrow>
     \<exists>b g'. fill_random balls g = Inr (b, g') \<and> distinct b \<and> length b = 5"
proof (induction balls g rule: fill_random.induct)
  case (1 balls g)
  show ?case
  proof (cases "length balls < 5")
    case False
    with "1.prems" show ?thesis by (subst fill_random.simps) simp
  next
    case True
    define available where "available = filter (\<lambda>num. num \<notin> set balls) [1..69]"
    have "available \<noteq> []" unfolding available_def using True by (rule available_nonempty)
    from random_choice_returns[OF this, of g] obtain num where
      c: "random_choice available g = Inr (num, stl g)" and m: "num \<in> set available" by blast
    from m have nb: "num \<notin> set balls" unfolding available_def by simp
    have d: "distinct (balls @ [num])" using "1.prems"(1) nb by simp
    have l: "length (balls @ [num]) \<le> 5" using True by simp
    from "1.IH"[OF True available_def c refl d l]
    obtain b g' where r: "fill_random (balls @ [num]) (stl g) = Inr (b, g')"
      and p: "distinct b" "length b = 5" by blast
    have "fill_random balls g = fill_random (balls @ [num]) (stl g)"
      using True c by (subst fill_random.simps) (simp add: available_def[symmetric] Let_def)
    with r p show ?thesis by simp
  qed
qed

text \<open>
  The sibling \<open>generate_ultimate_hot_strategy\<close> takes \<open>min(4, len(self.hot_numbers))\<close>
  hot numbers and fills up: it returns five different white balls however few hot
  numbers there are.
\<close>

lemma generate_ultimate_hot_strategy_returns:
  assumes "distinct (hot_nums self)" "powerballs self \<noteq> []"
  shows "\<exists>balls pb g'. generate_ultimate_hot_strategy self g = Inr (balls, pb, g')
           \<and> length balls = 5 \<and> distinct balls \<and> sorted balls"
proof -
  from select_hot_returns[OF assms(1), of g] obtain b1 g1 where
    h: "select_hot self g = Inr (b1, g1)" and p1: "distinct b1" "length b1 \<le> 4" by blast
  from p1(2) have "length b1 \<le> 5" by simp
  from select_frequent_returns[OF p1(1) this, of self g1] obtain b2 g2 where
    f: "select_frequent self b1 g1 = Inr (b2, g2)" and p2: "distinct b2" "length b2 \<le> 5" by blast
  from fill_random_returns[OF p2, of g2] obtain b3 g3 where
    r: "fill_random b2 g2 = Inr (b3, g3)" and p3: "distinct b3" "length b3 = 5" by blast
  have "most_common (powerballs self) 10 \<noteq> []" using assms(2) by (simp add: most_common_nonempty)
  then have "map fst (most_common (powerballs self) 10) \<noteq> []" by simp
  from random_choice_returns[OF this, of g3] obtain pb where
    c: "random_choice (map fst (most_common (powerballs self) 10)) g3 = Inr (pb, stl g3)" by blast
  have "generate_ultimate_hot_strategy self g = Inr (sort b3, pb, stl g3)"
    using h f r c by (simp add: generate_ultimate_hot_strategy_def)
  with p3 show ?thesis by simp
qed



lemma analyze_patterns_fields:
  "white_balls (analyze_patterns whites pbs) = whites"
  "powerballs (analyze_patterns whites pbs) = pbs"
  by (simp_all add: analyze_patterns_def Let_def split: prod.splits)








lemma ultimate_hot_on_three_draws:
  "\<exists>balls pb g'. generate_ultimate_hot_strategy (analyze_patterns three_draws [4, 9, 20]) g
       = Inr (balls, pb, g') \<and> length balls = 5 \<and> distinct balls \<and> sorted balls"
  by (rule generate_ultimate_hot_strategy_returns)
    (simp_all add: hot_nums_distinct analyze_patterns_fields)

text \<open>
  On a random source that repeats one number forever the loop of the frequency-weighted
  strategy never collects a second number, and the strategy does not return.  Python's
  generator cannot produce such a source.
\<close>

lemma unique_loop_repeating:
  assumes "unique_loop pool balls g = Some r"
  shows "g = sconst c \<longrightarrow> pool \<noteq> [] \<longrightarrow> length balls \<le> 1
           \<longrightarrow> set balls \<subseteq> {pool ! (c mod length pool)} \<longrightarrow> False"
proof (rule unique_loop.raw_induct[OF _ assms])
  fix loop :: "int list \<Rightarrow> int list \<Rightarrow> rng \<Rightarrow> (error + int list \<times> rng) option"
    and pool balls g r
  assume ih: "\<And>pool balls g r. loop pool balls g = Some r \<Longrightarrow>
      g = sconst c \<longrightarrow> pool \<noteq> [] \<longrightarrow> length balls \<le> 1
           \<longrightarrow> set balls \<subseteq> {pool ! (c mod length pool)} \<longrightarrow> False"
    and body: "(if length balls < 5
      then case random_choice pool g of Inl e \<Rightarrow> Some (Inl e)
           | Inr (num, g') \<Rightarrow>
               if num \<notin> set balls then loop pool (balls @ [num]) g'
               else loop pool balls g'
      else Some (Inr (balls, g))) = Some r"
  show "g = sconst c \<longrightarrow> pool \<noteq> [] \<longrightarrow> length balls \<le> 1
           \<longrightarrow> set balls \<subseteq> {pool ! (c mod length pool)} \<longrightarrow> False"
  proof (intro impI)
    assume g: "g = sconst c" and pne: "pool \<noteq> []" and l: "length balls \<le> 1"
      and s: "set balls \<subseteq> {pool ! (c mod length pool)}"
    define num where "num = pool ! (c mod length pool)"
    have c: "random_choice pool g = Inr (num, sconst c)"
      using pne g by (simp add: random_choice_def num_def)
    show False
    proof (cases "num \<in> set balls")
      case True
      with body l c have "loop pool balls (sconst c) = Some r" by simp
      from ih[OF this] pne l s show False by simp
    next
      case False
      with s have "balls = []" unfolding num_def by (cases balls) auto
      with body c have "loop pool [num] (sconst c) = Some r" by simp
      from ih[OF this] pne show False unfolding num_def by simp
    qed
  qed
qed

lemma frequency_weighted_repeating_source:
  "generate_frequency_weighted_strategy self (sconst c) = None"
proof -
  have ps: "set (selection_pool (white_balls self)) = {1..69}"
    unfolding selection_pool_def by (simp add: weighted_pool_set)
  then have pne: "selection_pool (white_balls self) \<noteq> []" by auto
  have "unique_loop (selection_pool (white_balls self)) [] (sconst c) = None"
  proof (cases "unique_loop (selection_pool (white_balls self)) [] (sconst c)")
    case None
    then show ?thesis .
  next
    case (Some r)
    from unique_loop_repeating[OF Some, of c] pne show ?thesis by simp
  qed
  then show ?thesis by (simp add: generate_frequency_weighted_strategy_def)
qed

end
